theory Spec2Isabelle
  imports Main "HOL-Library.Sublist"
begin

section \<open>The syntax trees the visitor walks\<close>

text \<open>
  \<^verbatim>\<open>scripts/ast_analysis.py\<close> walks the tree that Python's \<^verbatim>\<open>ast.parse\<close> returns.
  The statement classes of that tree are modelled as a closed datatype. Every statement
  carries its \<^verbatim>\<open>lineno\<close> and its child nodes in the order of the class's \<^verbatim>\<open>_fields\<close>,
  which is the order \<^verbatim>\<open>generic_visit\<close> iterates in.

  A node that is neither a statement, an exception handler nor a match case (an
  expression, a pattern, \<^verbatim>\<open>arguments\<close>, a \<^verbatim>\<open>withitem\<close>, a type parameter, an expression
  context, a type-ignore) is an \<open>Other\<close> with its child nodes: no node below it is a
  statement and the visitor has no method for its class, so only the shape of the subtree
  matters, for the depth of the recursion. The \<open>other list\<close> fields of a statement hold
  such children in field order: for a \<^verbatim>\<open>FunctionDef\<close> the \<^verbatim>\<open>arguments\<close> before the body and
  the decorators, the return annotation and the type parameters after it; for a \<^verbatim>\<open>For\<close>
  the target and the iterable; for a \<^verbatim>\<open>While\<close> or an \<^verbatim>\<open>If\<close> the test; for a \<^verbatim>\<open>With\<close>
  the items; for a \<^verbatim>\<open>Match\<close> the subject; for a handler its type; for a match case its
  pattern and guard. \<open>SimpleStmt\<close> stands for every statement class all of whose children
  are of that kind (\<^verbatim>\<open>Assign\<close>, \<^verbatim>\<open>Expr\<close>, \<^verbatim>\<open>Pass\<close>, \<^verbatim>\<open>Raise\<close>, \<^verbatim>\<open>Import\<close>,
  \<^verbatim>\<open>Global\<close>, ...). The value of a \<^verbatim>\<open>Return\<close> is not kept: \<^verbatim>\<open>visit_Return\<close> does not
  visit it.
\<close>

datatype other = Other "other list"

datatype stmt =
    FunctionDef nat "other list" "stmt list" "other list"
  | AsyncFunctionDef nat "other list" "stmt list" "other list"
  | ClassDef nat "other list" "stmt list" "other list"
  | Return nat
  | For nat "other list" "stmt list" "stmt list"
  | AsyncFor nat "other list" "stmt list" "stmt list"
  | While nat "other list" "stmt list" "stmt list"
  | If_stmt nat "other list" "stmt list" "stmt list"
  | With nat "other list" "stmt list"
  | AsyncWith nat "other list" "stmt list"
  | Match nat "other list" "match_case list"
  | Try nat "stmt list" "excepthandler list" "stmt list" "stmt list"
  | TryStar nat "stmt list" "excepthandler list" "stmt list" "stmt list"
  | Break nat
  | Continue nat
  | SimpleStmt nat "other list"
and excepthandler = ExceptHandler nat "other list" "stmt list"
and match_case = MatchCase "other list" "stmt list"

datatype py_mod = Module "stmt list" "other list"

section \<open>Markers, exceptions and the two objects\<close>

definition FINALLY :: string where "FINALLY = ''F''"
definition LOOP :: string where "LOOP = ''L''"
definition DEF :: string where "DEF = ''D''"

text \<open>
  The exceptions that occur: each constructor stands for the Python class with its
  subclasses (\<^verbatim>\<open>IndentationError\<close> is a \<^verbatim>\<open>SyntaxError\<close>), \<open>OtherException\<close> for
  anything else the parser may raise.
\<close>

datatype exn = SyntaxError | RecursionError | AssertionError | IndexError | OtherException

text \<open>
  A finding is the three-element list \<^verbatim>\<open>[self.filename, self.source, node.lineno]\<close>.
  The list \<^verbatim>\<open>findings\<close> is one Python object shared by the \<^verbatim>\<open>Reporter\<close> and each
  \<^verbatim>\<open>Visitor\<close> it creates; \<open>printed\<close> is what \<^verbatim>\<open>print\<close> has written to standard output,
  one \<^verbatim>\<open>(filename, lineno)\<close> pair per line. Both records extend the same base so that the
  field keeps its name in each.
\<close>

type_synonym finding = "string \<times> string \<times> nat"

record shared =
  findings :: "finding list"
  printed :: "(string \<times> nat) list"

record Visitor = shared +
  source :: string
  filename :: string
  state :: "string list"

record Reporter = shared +
  lines :: int

text \<open>
  A call either returns (\<open>Inr\<close>) or raises (\<open>Inl\<close>). What a \<^verbatim>\<open>Visitor\<close> method leaves
  behind when it raises is the shared list and the output written so far; the visitor
  object itself is dropped.
\<close>

type_synonym 'a outcome = "(exn \<times> shared) + 'a"

definition shared_part :: "Visitor \<Rightarrow> shared" where
  "shared_part vs = \<lparr>findings = findings vs, printed = printed vs\<rparr>"

definition and_then :: "'e + 'a \<Rightarrow> ('a \<Rightarrow> 'e + 'b) \<Rightarrow> 'e + 'b" where
  "and_then m f = (case m of Inl e \<Rightarrow> Inl e | Inr x \<Rightarrow> f x)"

section \<open>The visitor\<close>

text \<open>\<^verbatim>\<open>self.state.append(m)\<close>.\<close>

definition push :: "string \<Rightarrow> Visitor \<Rightarrow> Visitor" where
  "push m vs = vs\<lparr>state := state vs @ [m]\<rparr>"

text \<open>\<^verbatim>\<open>self.state.pop()\<close>: removes the last element, IndexError on an empty list.\<close>

definition pop :: "Visitor \<Rightarrow> Visitor outcome" where
  "pop vs = (if state vs = [] then Inl (IndexError, shared_part vs)
             else Inr (vs\<lparr>state := butlast (state vs)\<rparr>))"

text \<open>
  The loop of \<^verbatim>\<open>do_forbidden\<close>,
  \<^verbatim>\<open>for i in range(len(self.state), 0, -1)\<close>, by recursion on \<open>i\<close>: \<open>scan st good i\<close> is
  the value of the local \<^verbatim>\<open>state\<close> after the iterations \<open>i, i-1, ..., 1\<close>.
\<close>

fun scan :: "string list \<Rightarrow> string \<Rightarrow> nat \<Rightarrow> string option" where
  "scan st good 0 = None"
| "scan st good (Suc j) =
     (if st ! j = FINALLY \<or> st ! j = good then Some (st ! j) else scan st good j)"

definition do_forbidden :: "Visitor \<Rightarrow> nat \<Rightarrow> string option \<Rightarrow> Visitor outcome" where
  "do_forbidden vs lineno good_state =
     (case good_state of
        None \<Rightarrow> Inl (AssertionError, shared_part vs)
      | Some good \<Rightarrow>
          if state vs = [] then Inr vs
          else if scan (state vs) good (length (state vs)) = Some FINALLY
          then Inr (vs\<lparr>findings := findings vs @ [(filename vs, source vs, lineno)],
                       printed := printed vs @ [(filename vs, lineno)]\<rparr>)
          else Inr vs)"

subsection \<open>The recursion limit\<close>

text \<open>
  The script never changes the interpreter's recursion limit, and the traversal is
  recursive, so on a deep tree it ends in \<^verbatim>\<open>RecursionError\<close>. Each call of a Python
  function takes one frame and is refused when no frame is left; \<^verbatim>\<open>NodeVisitor.visit\<close>,
  \<^verbatim>\<open>generic_visit\<close> and the visitor's own methods are Python functions, while
  \<^verbatim>\<open>append\<close>, \<^verbatim>\<open>pop\<close>, \<^verbatim>\<open>len\<close>, \<^verbatim>\<open>getattr\<close> and \<^verbatim>\<open>print\<close> are built in.

  \<open>own_frames n\<close> is the chain of calls that \<^verbatim>\<open>self.visit(n)\<close> makes before it either is
  done or descends to a child:
  \<^item> \<^verbatim>\<open>visit\<close>, \<^verbatim>\<open>visit_Break\<close> (or \<^verbatim>\<open>visit_Continue\<close>, \<^verbatim>\<open>visit_Return\<close>),
    \<^verbatim>\<open>do_forbidden\<close>: three, and nothing is recorded before the third is entered;
  \<^item> \<^verbatim>\<open>visit\<close>, \<^verbatim>\<open>visit_FunctionDef\<close>, \<^verbatim>\<open>do_FunctionDef\<close>, \<^verbatim>\<open>generic_visit\<close>: four,
    and the same for a loop through \<^verbatim>\<open>do_Loop\<close>;
  \<^item> \<^verbatim>\<open>visit\<close>, \<^verbatim>\<open>visit_Try\<close>, \<^verbatim>\<open>do_Try\<close>: three, the children being visited from
    \<^verbatim>\<open>do_Try\<close> itself;
  \<^item> \<^verbatim>\<open>visit\<close>, \<^verbatim>\<open>generic_visit\<close>: two, for every class without a method, and for
    handlers, match cases and \<open>Other\<close> nodes.
  None of these calls records a finding before the chain is complete, so a chain that
  does not fit is refused as a whole where the node is reached, in the loop over the
  list that holds it. In \<open>visit r vs n\<close> the chain of \<open>n\<close> is on the stack and \<open>r\<close> frames
  are free beyond it; in the functions over lists, \<open>r\<close> frames are free beyond the method
  that runs the loop.
\<close>

fun own_frames :: "stmt \<Rightarrow> nat" where
  "own_frames (FunctionDef ln pre body post) = 4"
| "own_frames (For ln pre body orelse) = 4"
| "own_frames (While ln pre body orelse) = 4"
| "own_frames (Try ln body handlers orelse finalbody) = 3"
| "own_frames (TryStar ln body handlers orelse finalbody) = 3"
| "own_frames (Break ln) = 3"
| "own_frames (Continue ln) = 3"
| "own_frames (Return ln) = 3"
| "own_frames n = 2"

text \<open>
  \<^verbatim>\<open>generic_visit\<close> below a node that holds no statement: nothing is read or written,
  the recursion only takes frames.
\<close>

fun visit_others :: "nat \<Rightarrow> Visitor \<Rightarrow> other list \<Rightarrow> Visitor outcome" where
  "visit_others r vs [] = Inr vs"
| "visit_others r vs (Other kids # os) =
     (if r < 2 then Inl (RecursionError, shared_part vs)
      else and_then (visit_others (r - 2) vs kids) (\<lambda>vs. visit_others r vs os))"

text \<open>
  \<^verbatim>\<open>NodeVisitor.visit\<close> calls \<^verbatim>\<open>visit_<Class>\<close> when the visitor has it and
  \<^verbatim>\<open>generic_visit\<close> otherwise; \<^verbatim>\<open>generic_visit\<close> visits the children field by field.
  One equation per statement class:
  \<^item> \<^verbatim>\<open>FunctionDef\<close>: \<^verbatim>\<open>do_FunctionDef\<close>;
  \<^item> \<^verbatim>\<open>For\<close>, \<^verbatim>\<open>While\<close>: \<^verbatim>\<open>do_Loop\<close>;
  \<^item> \<^verbatim>\<open>Try\<close>, \<^verbatim>\<open>TryStar\<close>: \<^verbatim>\<open>do_Try\<close>;
  \<^item> \<^verbatim>\<open>Break\<close>, \<^verbatim>\<open>Continue\<close>, \<^verbatim>\<open>Return\<close>: \<^verbatim>\<open>do_forbidden\<close> with the
    \<^verbatim>\<open>good_state\<close> of the call site;
  \<^item> every other class, and the exception handlers and match cases: \<^verbatim>\<open>generic_visit\<close>.
  \<open>visit_stmts\<close> is \<^verbatim>\<open>for n in <list>: self.visit(n)\<close>.
\<close>

fun visit :: "nat \<Rightarrow> Visitor \<Rightarrow> stmt \<Rightarrow> Visitor outcome"
and visit_stmts :: "nat \<Rightarrow> Visitor \<Rightarrow> stmt list \<Rightarrow> Visitor outcome"
and visit_handlers :: "nat \<Rightarrow> Visitor \<Rightarrow> excepthandler list \<Rightarrow> Visitor outcome"
and visit_cases :: "nat \<Rightarrow> Visitor \<Rightarrow> match_case list \<Rightarrow> Visitor outcome"
where
  "visit r vs (FunctionDef ln pre body post) =
     and_then (visit_others r (push DEF vs) pre) (\<lambda>vs.
     and_then (visit_stmts r vs body) (\<lambda>vs.
     and_then (visit_others r vs post) pop))"
| "visit r vs (AsyncFunctionDef ln pre body post) =
     and_then (visit_others r vs pre) (\<lambda>vs.
     and_then (visit_stmts r vs body) (\<lambda>vs. visit_others r vs post))"
| "visit r vs (ClassDef ln pre body post) =
     and_then (visit_others r vs pre) (\<lambda>vs.
     and_then (visit_stmts r vs body) (\<lambda>vs. visit_others r vs post))"
| "visit r vs (Return ln) = do_forbidden vs ln (Some DEF)"
| "visit r vs (For ln pre body orelse) =
     and_then (visit_others r (push LOOP vs) pre) (\<lambda>vs.
     and_then (visit_stmts r vs body) (\<lambda>vs.
     and_then (visit_stmts r vs orelse) pop))"
| "visit r vs (AsyncFor ln pre body orelse) =
     and_then (visit_others r vs pre) (\<lambda>vs.
     and_then (visit_stmts r vs body) (\<lambda>vs. visit_stmts r vs orelse))"
| "visit r vs (While ln pre body orelse) =
     and_then (visit_others r (push LOOP vs) pre) (\<lambda>vs.
     and_then (visit_stmts r vs body) (\<lambda>vs.
     and_then (visit_stmts r vs orelse) pop))"
| "visit r vs (If_stmt ln pre body orelse) =
     and_then (visit_others r vs pre) (\<lambda>vs.
     and_then (visit_stmts r vs body) (\<lambda>vs. visit_stmts r vs orelse))"
| "visit r vs (With ln pre body) =
     and_then (visit_others r vs pre) (\<lambda>vs. visit_stmts r vs body)"
| "visit r vs (AsyncWith ln pre body) =
     and_then (visit_others r vs pre) (\<lambda>vs. visit_stmts r vs body)"
| "visit r vs (Match ln pre cases) =
     and_then (visit_others r vs pre) (\<lambda>vs. visit_cases r vs cases)"
| "visit r vs (Try ln body handlers orelse finalbody) =
     and_then (visit_stmts r vs body) (\<lambda>vs.
     and_then (visit_handlers r vs handlers) (\<lambda>vs.
     and_then (visit_stmts r vs orelse) (\<lambda>vs.
     and_then (visit_stmts r (push FINALLY vs) finalbody) pop)))"
| "visit r vs (TryStar ln body handlers orelse finalbody) =
     and_then (visit_stmts r vs body) (\<lambda>vs.
     and_then (visit_handlers r vs handlers) (\<lambda>vs.
     and_then (visit_stmts r vs orelse) (\<lambda>vs.
     and_then (visit_stmts r (push FINALLY vs) finalbody) pop)))"
| "visit r vs (Break ln) = do_forbidden vs ln (Some LOOP)"
| "visit r vs (Continue ln) = do_forbidden vs ln (Some LOOP)"
| "visit r vs (SimpleStmt ln kids) = visit_others r vs kids"
| "visit_stmts r vs [] = Inr vs"
| "visit_stmts r vs (n # ns) =
     (if r < own_frames n then Inl (RecursionError, shared_part vs)
      else and_then (visit (r - own_frames n) vs n) (\<lambda>vs. visit_stmts r vs ns))"
| "visit_handlers r vs [] = Inr vs"
| "visit_handlers r vs (ExceptHandler ln pre body # hs) =
     (if r < 2 then Inl (RecursionError, shared_part vs)
      else and_then (visit_others (r - 2) vs pre) (\<lambda>vs.
           and_then (visit_stmts (r - 2) vs body) (\<lambda>vs. visit_handlers r vs hs)))"
| "visit_cases r vs [] = Inr vs"
| "visit_cases r vs (MatchCase pre body # cs) =
     (if r < 2 then Inl (RecursionError, shared_part vs)
      else and_then (visit_others (r - 2) vs pre) (\<lambda>vs.
           and_then (visit_stmts (r - 2) vs body) (\<lambda>vs. visit_cases r vs cs)))"

text \<open>
  \<^verbatim>\<open>visit\<close> on the \<^verbatim>\<open>Module\<close> that \<^verbatim>\<open>ast.parse\<close> returns, called with \<open>r\<close> frames free:
  \<^verbatim>\<open>visit\<close> and \<^verbatim>\<open>generic_visit\<close> for the module itself, then its body and its
  type-ignores.
\<close>

fun visit_mod :: "nat \<Rightarrow> Visitor \<Rightarrow> py_mod \<Rightarrow> Visitor outcome" where
  "visit_mod r vs (Module body type_ignores) =
     (if r < 2 then Inl (RecursionError, shared_part vs)
      else and_then (visit_stmts (r - 2) vs body) (\<lambda>vs.
           visit_others (r - 2) vs type_ignores))"

section \<open>The reporter\<close>

text \<open>
  \<^verbatim>\<open>bytes.split(sep)\<close> for a one-byte separator: the pieces between the occurrences of
  \<open>sep\<close>, empty pieces kept, so the empty input gives one empty piece.
\<close>

fun split :: "char \<Rightarrow> string \<Rightarrow> string list" where
  "split sep [] = [[]]"
| "split sep (c # cs) =
     (if c = sep then [] # split sep cs
      else (c # hd (split sep cs)) # tl (split sep cs))"

definition newline :: char where "newline = CHR 0x0A"

text \<open>
  \<^verbatim>\<open>Reporter.report\<close>. The parser \<^verbatim>\<open>ast.parse\<close> is outside the repository and is a
  parameter: it returns the module or the exception it raised. \<open>room\<close> is the number of
  frames the recursion limit leaves free where line 95 calls the visitor. The
  \<^verbatim>\<open>except\<close> clause catches \<^verbatim>\<open>SyntaxError\<close> and \<^verbatim>\<open>RecursionError\<close> of the parser and
  returns; any other exception of the parser leaves \<^verbatim>\<open>report\<close>. The visit is outside
  the \<^verbatim>\<open>try\<close>: an exception it raises leaves \<^verbatim>\<open>report\<close> too, before \<^verbatim>\<open>self.lines\<close> is
  touched and with the findings appended so far still in the reporter's list.
  \<^verbatim>\<open>Visitor(source, filename, self.findings)\<close> starts with an empty \<^verbatim>\<open>state\<close> and appends
  to the reporter's own list.
\<close>

definition report ::
  "(string \<Rightarrow> exn + py_mod) \<Rightarrow> nat \<Rightarrow> Reporter \<Rightarrow> string \<Rightarrow> string \<Rightarrow> int \<Rightarrow>
   (exn \<times> Reporter) + Reporter" where
  "report parse room self src fname verbose =
     (case parse src of
        Inl e \<Rightarrow> if e = SyntaxError \<or> e = RecursionError then Inr self else Inl (e, self)
      | Inr a \<Rightarrow>
          (case visit_mod room \<lparr>findings = findings self, printed = printed self,
                                source = src, filename = fname, state = []\<rparr> a of
             Inl (e, s) \<Rightarrow> Inl (e, self\<lparr>findings := findings s, printed := printed s\<rparr>)
           | Inr vs \<Rightarrow>
               Inr (self\<lparr>findings := findings vs, printed := printed vs,
                         lines := lines self + int (length (split newline src))\<rparr>)))"

section \<open>Lexical nesting\<close>

text \<open>
  The nearest-match rule over a chain of markers written outermost first: the first entry,
  from the innermost end, that is the cleanup marker or the safe marker.
\<close>

definition nearest :: "string \<Rightarrow> string list \<Rightarrow> string option" where
  "nearest good chain = find (\<lambda>m. m = FINALLY \<or> m = good) (rev chain)"

text \<open>
  \<open>flagged chain n\<close>: the line numbers, in textual order, of the \<^verbatim>\<open>break\<close>,
  \<^verbatim>\<open>continue\<close> and \<^verbatim>\<open>return\<close> statements of \<open>n\<close> whose nearest match is the cleanup
  marker, where \<open>chain\<close> holds the markers of the constructs around \<open>n\<close> and each
  \<^verbatim>\<open>FunctionDef\<close>, \<^verbatim>\<open>For\<close>, \<^verbatim>\<open>While\<close> and cleanup suite passed on the way down adds
  its marker. Nothing is stored between statements: the chain is an argument.
\<close>

fun flagged :: "string list \<Rightarrow> stmt \<Rightarrow> nat list"
and flagged_stmts :: "string list \<Rightarrow> stmt list \<Rightarrow> nat list"
and flagged_handlers :: "string list \<Rightarrow> excepthandler list \<Rightarrow> nat list"
and flagged_cases :: "string list \<Rightarrow> match_case list \<Rightarrow> nat list"
where
  "flagged chain (FunctionDef ln pre body post) = flagged_stmts (chain @ [DEF]) body"
| "flagged chain (AsyncFunctionDef ln pre body post) = flagged_stmts chain body"
| "flagged chain (ClassDef ln pre body post) = flagged_stmts chain body"
| "flagged chain (Return ln) = (if nearest DEF chain = Some FINALLY then [ln] else [])"
| "flagged chain (For ln pre body orelse) =
     flagged_stmts (chain @ [LOOP]) body @ flagged_stmts (chain @ [LOOP]) orelse"
| "flagged chain (AsyncFor ln pre body orelse) =
     flagged_stmts chain body @ flagged_stmts chain orelse"
| "flagged chain (While ln pre body orelse) =
     flagged_stmts (chain @ [LOOP]) body @ flagged_stmts (chain @ [LOOP]) orelse"
| "flagged chain (If_stmt ln pre body orelse) =
     flagged_stmts chain body @ flagged_stmts chain orelse"
| "flagged chain (With ln pre body) = flagged_stmts chain body"
| "flagged chain (AsyncWith ln pre body) = flagged_stmts chain body"
| "flagged chain (Match ln pre cases) = flagged_cases chain cases"
| "flagged chain (Try ln body handlers orelse finalbody) =
     flagged_stmts chain body @ flagged_handlers chain handlers @
     flagged_stmts chain orelse @ flagged_stmts (chain @ [FINALLY]) finalbody"
| "flagged chain (TryStar ln body handlers orelse finalbody) =
     flagged_stmts chain body @ flagged_handlers chain handlers @
     flagged_stmts chain orelse @ flagged_stmts (chain @ [FINALLY]) finalbody"
| "flagged chain (Break ln) = (if nearest LOOP chain = Some FINALLY then [ln] else [])"
| "flagged chain (Continue ln) = (if nearest LOOP chain = Some FINALLY then [ln] else [])"
| "flagged chain (SimpleStmt ln kids) = []"
| "flagged_stmts chain [] = []"
| "flagged_stmts chain (n # ns) = flagged chain n @ flagged_stmts chain ns"
| "flagged_handlers chain [] = []"
| "flagged_handlers chain (ExceptHandler ln pre body # hs) =
     flagged_stmts chain body @ flagged_handlers chain hs"
| "flagged_cases chain [] = []"
| "flagged_cases chain (MatchCase pre body # cs) =
     flagged_stmts chain body @ flagged_cases chain cs"

text \<open>
  The line numbers of all statements (and \<^verbatim>\<open>except\<close> clauses) of a tree in textual
  order: a compound statement's own line, then its suites in the order they are written.
\<close>

fun linenos :: "stmt \<Rightarrow> nat list"
and linenos_stmts :: "stmt list \<Rightarrow> nat list"
and linenos_handlers :: "excepthandler list \<Rightarrow> nat list"
and linenos_cases :: "match_case list \<Rightarrow> nat list"
where
  "linenos (FunctionDef ln pre body post) = ln # linenos_stmts body"
| "linenos (AsyncFunctionDef ln pre body post) = ln # linenos_stmts body"
| "linenos (ClassDef ln pre body post) = ln # linenos_stmts body"
| "linenos (Return ln) = [ln]"
| "linenos (For ln pre body orelse) = ln # linenos_stmts body @ linenos_stmts orelse"
| "linenos (AsyncFor ln pre body orelse) = ln # linenos_stmts body @ linenos_stmts orelse"
| "linenos (While ln pre body orelse) = ln # linenos_stmts body @ linenos_stmts orelse"
| "linenos (If_stmt ln pre body orelse) = ln # linenos_stmts body @ linenos_stmts orelse"
| "linenos (With ln pre body) = ln # linenos_stmts body"
| "linenos (AsyncWith ln pre body) = ln # linenos_stmts body"
| "linenos (Match ln pre cases) = ln # linenos_cases cases"
| "linenos (Try ln body handlers orelse finalbody) =
     ln # linenos_stmts body @ linenos_handlers handlers @
     linenos_stmts orelse @ linenos_stmts finalbody"
| "linenos (TryStar ln body handlers orelse finalbody) =
     ln # linenos_stmts body @ linenos_handlers handlers @
     linenos_stmts orelse @ linenos_stmts finalbody"
| "linenos (Break ln) = [ln]"
| "linenos (Continue ln) = [ln]"
| "linenos (SimpleStmt ln kids) = [ln]"
| "linenos_stmts [] = []"
| "linenos_stmts (n # ns) = linenos n @ linenos_stmts ns"
| "linenos_handlers [] = []"
| "linenos_handlers (ExceptHandler ln pre body # hs) =
     ln # linenos_stmts body @ linenos_handlers hs"
| "linenos_cases [] = []"
| "linenos_cases (MatchCase pre body # cs) = linenos_stmts body @ linenos_cases cs"

text \<open>The visitor after it has recorded, and printed, findings at the lines \<open>lns\<close>.\<close>

definition emit :: "Visitor \<Rightarrow> nat list \<Rightarrow> Visitor" where
  "emit vs lns =
     vs\<lparr>findings := findings vs @ map (\<lambda>ln. (filename vs, source vs, ln)) lns,
        printed := printed vs @ map (\<lambda>ln. (filename vs, ln)) lns\<rparr>"

text \<open>
  The safe marker of a control-transfer statement: the \<^verbatim>\<open>good_state\<close> argument its
  \<^verbatim>\<open>visit_\<close> method passes to \<^verbatim>\<open>do_forbidden\<close>.
\<close>

fun safe_marker :: "stmt \<Rightarrow> string option" where
  "safe_marker (Break ln) = Some LOOP"
| "safe_marker (Continue ln) = Some LOOP"
| "safe_marker (Return ln) = Some DEF"
| "safe_marker n = None"

section \<open>Outcomes and frames\<close>

text \<open>The exception a call ended with, if any, and the findings list after the call.\<close>

fun raised :: "('e \<times> 's) + 'a \<Rightarrow> 'e option" where
  "raised (Inl (e, s)) = Some e"
| "raised (Inr x) = None"

fun recorded :: "Visitor outcome \<Rightarrow> finding list" where
  "recorded (Inl (e, s)) = findings s"
| "recorded (Inr vs) = findings vs"

text \<open>
  \<open>stops_within vs fl out\<close>: started from \<open>vs\<close>, the call has either returned with
  findings recorded at all the lines \<open>fl\<close> and the marker stack as before, or ended in
  \<^verbatim>\<open>RecursionError\<close> with findings recorded at an initial part of \<open>fl\<close>.
\<close>

definition stops_within :: "Visitor \<Rightarrow> nat list \<Rightarrow> Visitor outcome \<Rightarrow> bool" where
  "stops_within vs fl out =
     (out = Inr (emit vs fl) \<or>
      (\<exists>lns. prefix lns fl \<and> out = Inl (RecursionError, shared_part (emit vs lns))))"

text \<open>
  The frames a traversal needs: \<open>frames_below n\<close> beyond the chain of \<open>n\<close> itself, the
  functions over lists beyond the method that runs the loop, \<open>frames_mod\<close> for the call
  on the module.
\<close>

fun frames_others :: "other list \<Rightarrow> nat" where
  "frames_others [] = 0"
| "frames_others (Other kids # os) = max (2 + frames_others kids) (frames_others os)"

fun frames_below :: "stmt \<Rightarrow> nat"
and frames_stmts :: "stmt list \<Rightarrow> nat"
and frames_handlers :: "excepthandler list \<Rightarrow> nat"
and frames_cases :: "match_case list \<Rightarrow> nat"
where
  "frames_below (FunctionDef ln pre body post) =
     max (frames_others pre) (max (frames_stmts body) (frames_others post))"
| "frames_below (AsyncFunctionDef ln pre body post) =
     max (frames_others pre) (max (frames_stmts body) (frames_others post))"
| "frames_below (ClassDef ln pre body post) =
     max (frames_others pre) (max (frames_stmts body) (frames_others post))"
| "frames_below (Return ln) = 0"
| "frames_below (For ln pre body orelse) =
     max (frames_others pre) (max (frames_stmts body) (frames_stmts orelse))"
| "frames_below (AsyncFor ln pre body orelse) =
     max (frames_others pre) (max (frames_stmts body) (frames_stmts orelse))"
| "frames_below (While ln pre body orelse) =
     max (frames_others pre) (max (frames_stmts body) (frames_stmts orelse))"
| "frames_below (If_stmt ln pre body orelse) =
     max (frames_others pre) (max (frames_stmts body) (frames_stmts orelse))"
| "frames_below (With ln pre body) = max (frames_others pre) (frames_stmts body)"
| "frames_below (AsyncWith ln pre body) = max (frames_others pre) (frames_stmts body)"
| "frames_below (Match ln pre cases) = max (frames_others pre) (frames_cases cases)"
| "frames_below (Try ln body handlers orelse finalbody) =
     max (max (frames_stmts body) (frames_handlers handlers))
         (max (frames_stmts orelse) (frames_stmts finalbody))"
| "frames_below (TryStar ln body handlers orelse finalbody) =
     max (max (frames_stmts body) (frames_handlers handlers))
         (max (frames_stmts orelse) (frames_stmts finalbody))"
| "frames_below (Break ln) = 0"
| "frames_below (Continue ln) = 0"
| "frames_below (SimpleStmt ln kids) = frames_others kids"
| "frames_stmts [] = 0"
| "frames_stmts (n # ns) = max (own_frames n + frames_below n) (frames_stmts ns)"
| "frames_handlers [] = 0"
| "frames_handlers (ExceptHandler ln pre body # hs) =
     max (2 + max (frames_others pre) (frames_stmts body)) (frames_handlers hs)"
| "frames_cases [] = 0"
| "frames_cases (MatchCase pre body # cs) =
     max (2 + max (frames_others pre) (frames_stmts body)) (frames_cases cs)"

fun frames_mod :: "py_mod \<Rightarrow> nat" where
  "frames_mod (Module body type_ignores) =
     2 + max (frames_stmts body) (frames_others type_ignores)"

section \<open>Example inputs\<close>

text \<open>A visitor with nothing recorded yet and the marker stack \<open>st\<close>.\<close>

definition visitor0 :: "string list \<Rightarrow> Visitor" where
  "visitor0 st =
     \<lparr>findings = [], printed = [], source = ''src'', filename = ''a.py'', state = st\<rparr>"

definition reporter0 :: Reporter where
  "reporter0 = \<lparr>findings = [], printed = [], lines = 10\<rparr>"

text \<open>
  The expression \<^verbatim>\<open>a.b.b. ... .b\<close> with \<open>k\<close> attribute accesses: a \<^verbatim>\<open>Name\<close> with its
  context node, inside \<open>k\<close> \<^verbatim>\<open>Attribute\<close> nodes with theirs.
\<close>

fun attr_chain :: "nat \<Rightarrow> other" where
  "attr_chain 0 = Other [Other []]"
| "attr_chain (Suc k) = Other [attr_chain k, Other []]"

text \<open>
  The frames free at line 95 under the default limit of 1000: the module's code,
  \<^verbatim>\<open>main\<close>, \<^verbatim>\<open>file_report\<close> (or \<^verbatim>\<open>tarball_report\<close>) and \<^verbatim>\<open>report\<close> are on the stack.
\<close>

definition default_room :: nat where
  "default_room = 996"

text \<open>
  A text that parses and is too deep for the traversal:
  \<^verbatim>\<open>
  for x in y:
      try:
          pass
      finally:
          break
  a.b.b.b ... .b
  \<close>
  with 600 attribute accesses on line 6, and its tree.
\<close>

definition deep_source :: string where
  "deep_source =
     ''for x in y:'' @ [newline] @ ''    try:'' @ [newline] @ ''        pass'' @ [newline] @
     ''    finally:'' @ [newline] @ ''        break'' @ [newline] @
     ''a'' @ concat (replicate 600 ''.b'') @ [newline]"

definition deep_module :: py_mod where
  "deep_module =
     Module [For 1 [Other [Other []], Other [Other []]]
               [Try 2 [SimpleStmt 3 []] [] [] [Break 5]] [],
             SimpleStmt 6 [attr_chain 600]] []"

text \<open>A module body with flagged and unflagged statements in several nestings.\<close>

definition example_body :: "stmt list" where
  "example_body =
     [For 1 [] [Try 2 [Break 3] [ExceptHandler 4 [] [Continue 5]] []
                  [Break 7, Continue 7]] [],
      FunctionDef 8 [] [Try 9 [Return 10] [] []
                          [While 12 [] [Return 13] [], Return 14]] []]"

section \<open>Basic facts\<close>

lemma markers_distinct [simp]:
  "FINALLY \<noteq> LOOP" "FINALLY \<noteq> DEF" "LOOP \<noteq> DEF"
  "LOOP \<noteq> FINALLY" "DEF \<noteq> FINALLY" "DEF \<noteq> LOOP"
  by (simp_all add: FINALLY_def LOOP_def DEF_def)

lemma and_then_Inr [simp]: "and_then (Inr x) f = f x"
  by (simp add: and_then_def)

lemma and_then_Inl [simp]: "and_then (Inl e) f = Inl e"
  by (simp add: and_then_def)

lemma and_then_assoc: "and_then (and_then m f) g = and_then m (\<lambda>x. and_then (f x) g)"
  by (cases m) simp_all

lemma state_push [simp]: "state (push m vs) = state vs @ [m]"
  by (simp add: push_def)

lemma state_visitor0 [simp]: "state (visitor0 st) = st"
  by (simp add: visitor0_def)

lemma emit_Nil [simp]: "emit vs [] = vs"
  by (simp add: emit_def)

lemma emit_emit [simp]: "emit (emit vs a) b = emit vs (a @ b)"
  by (simp add: emit_def)

lemma state_emit [simp]: "state (emit vs a) = state vs"
  by (simp add: emit_def)

lemma push_emit [simp]: "push m (emit vs a) = emit (push m vs) a"
  by (simp add: emit_def push_def)

lemma shared_part_emit_push [simp]:
  "shared_part (emit (push m vs) a) = shared_part (emit vs a)"
  by (simp add: shared_part_def emit_def push_def)

lemma findings_shared_part [simp]: "findings (shared_part vs) = findings vs"
  by (simp add: shared_part_def)

lemma printed_shared_part [simp]: "printed (shared_part vs) = printed vs"
  by (simp add: shared_part_def)

text \<open>A pop after a push, with findings recorded in between, gives back the old stack.\<close>

lemma pop_emit_push [simp]: "pop (emit (push m vs) a) = Inr (emit vs a)"
  by (simp add: pop_def emit_def push_def)

lemma pop_push [simp]: "pop (push m vs) = Inr vs"
  by (simp add: pop_def push_def)

subsection \<open>The scanning loop finds the nearest match\<close>

lemma scan_find:
  "j \<le> length st \<Longrightarrow>
   scan st good j = find (\<lambda>m. m = FINALLY \<or> m = good) (rev (take j st))"
  by (induction j) (simp_all add: take_Suc_conv_app_nth)

lemma scan_nearest: "scan st good (length st) = nearest good st"
  by (simp add: scan_find nearest_def)

lemma find_first_hit: "\<forall>x\<in>set ys. \<not> P x \<Longrightarrow> P m \<Longrightarrow> find P (ys @ m # zs) = Some m"
  by (induction ys) simp_all

lemma find_no_hit: "\<forall>x\<in>set ys. \<not> P x \<Longrightarrow> find P ys = None"
  by (induction ys) simp_all

lemma nearest_decides:
  assumes "m = FINALLY \<or> m = good" "FINALLY \<notin> set inner" "good \<notin> set inner"
  shows "nearest good (outer @ m # inner) = Some m"
proof -
  have "\<forall>x\<in>set (rev inner). \<not> (x = FINALLY \<or> x = good)"
    using assms(2,3) by auto
  then have "find (\<lambda>x. x = FINALLY \<or> x = good) (rev inner @ m # rev outer) = Some m"
    using assms(1) by (rule find_first_hit)
  then show ?thesis by (simp add: nearest_def)
qed

lemma nearest_none:
  assumes "FINALLY \<notin> set st" "good \<notin> set st"
  shows "nearest good st = None"
proof -
  have "\<forall>x\<in>set (rev st). \<not> (x = FINALLY \<or> x = good)"
    using assms by auto
  then show ?thesis unfolding nearest_def by (rule find_no_hit)
qed

lemma do_forbidden_emit:
  "do_forbidden vs ln (Some good) =
     Inr (emit vs (if nearest good (state vs) = Some FINALLY then [ln] else []))"
  by (cases "state vs = []")
     (simp_all add: do_forbidden_def scan_nearest emit_def nearest_def)

subsection \<open>Nodes without statements\<close>

lemma visit_others_outcome:
  "visit_others r vs os =
     (if frames_others os \<le> r then Inr vs else Inl (RecursionError, shared_part vs))"
  by (induction r vs os rule: visit_others.induct) auto

lemma frames_attr_chain: "frames_others (attr_chain k # os) = max (2 * k + 4) (frames_others os)"
  by (induction k arbitrary: os) simp_all

subsection \<open>Enough frames: the traversal against lexical nesting\<close>

lemma visit_complete:
  "frames_below n \<le> r \<Longrightarrow> visit r vs n = Inr (emit vs (flagged (state vs) n))"
  "frames_stmts ns \<le> r \<Longrightarrow> visit_stmts r vs ns = Inr (emit vs (flagged_stmts (state vs) ns))"
  "frames_handlers hs \<le> r \<Longrightarrow>
     visit_handlers r vs hs = Inr (emit vs (flagged_handlers (state vs) hs))"
  "frames_cases cs \<le> r \<Longrightarrow> visit_cases r vs cs = Inr (emit vs (flagged_cases (state vs) cs))"
proof (induction r vs n and r vs ns and r vs hs and r vs cs
      rule: visit_visit_stmts_visit_handlers_visit_cases.induct)
  case (18 r vs n ns)
  from "18.prems" have fit: "\<not> r < own_frames n" "frames_below n \<le> r - own_frames n"
    and rest: "frames_stmts ns \<le> r"
    by auto
  show ?case
    using fit "18.IH"(1) [OF fit] "18.IH"(2) [OF fit(1) rest] by simp
next
  case (20 r vs ln pre body hs)
  from "20.prems" have fit: "\<not> r < 2" "frames_others pre \<le> r - 2"
      "frames_stmts body \<le> r - 2"
    and rest: "frames_handlers hs \<le> r"
    by auto
  show ?case
    using fit "20.IH"(1) [OF fit(1,3)] "20.IH"(2) [OF fit(1) rest]
    by (simp add: visit_others_outcome)
next
  case (22 r vs pre body cs)
  from "22.prems" have fit: "\<not> r < 2" "frames_others pre \<le> r - 2"
      "frames_stmts body \<le> r - 2"
    and rest: "frames_cases cs \<le> r"
    by auto
  show ?case
    using fit "22.IH"(1) [OF fit(1,3)] "22.IH"(2) [OF fit(1) rest]
    by (simp add: visit_others_outcome)
qed (simp_all add: do_forbidden_emit visit_others_outcome)


subsection \<open>Any number of frames: what is recorded before the traversal stops\<close>

lemma stops_withinI1: "out = Inr (emit vs fl) \<Longrightarrow> stops_within vs fl out"
  by (simp add: stops_within_def)

lemma stops_withinI2:
  assumes "prefix lns fl" "out = Inl (RecursionError, shared_part (emit vs lns))"
  shows "stops_within vs fl out"
  unfolding stops_within_def
  apply (rule disjI2)
  apply (rule exI [of _ lns])
  apply (simp only: assms simp_thms)
  done

lemma stops_withinE:
  assumes "stops_within vs fl out"
  obtains (ret) "out = Inr (emit vs fl)"
    | (exc) lns where "prefix lns fl" "out = Inl (RecursionError, shared_part (emit vs lns))"
proof -
  from assms have
    "out = Inr (emit vs fl) \<or>
     (\<exists>lns. prefix lns fl \<and> out = Inl (RecursionError, shared_part (emit vs lns)))"
    by (simp only: stops_within_def)
  then show thesis
  proof (elim disjE exE conjE)
    assume "out = Inr (emit vs fl)"
    then show thesis by (rule ret)
  next
    fix lns
    assume "prefix lns fl" "out = Inl (RecursionError, shared_part (emit vs lns))"
    then show thesis by (rule exc)
  qed
qed


lemma stops_return: "stops_within vs [] (Inr vs)"
  by (rule stops_withinI1) simp

lemma stops_raise: "stops_within vs fl (Inl (RecursionError, shared_part vs))"
  by (rule stops_withinI2 [of "[]"]) simp_all

lemma stops_seq:
  assumes "stops_within vs a m"
    and "stops_within (emit vs a) b (f (emit vs a))"
  shows "stops_within vs (a @ b) (and_then m f)"
  using assms(1)
proof (cases rule: stops_withinE)
  case ret
  from assms(2) show ?thesis
  proof (cases rule: stops_withinE)
    case ret2: ret
    show ?thesis
      by (rule stops_withinI1) (simp add: ret ret2)
  next
    case exc2: (exc lns)
    show ?thesis
    proof (rule stops_withinI2 [of "a @ lns"])
      show "prefix (a @ lns) (a @ b)"
        using exc2(1) by simp
      show "and_then m f = Inl (RecursionError, shared_part (emit vs (a @ lns)))"
        by (simp add: ret exc2(2))
    qed
  qed
next
  case (exc lns)
  show ?thesis
  proof (rule stops_withinI2 [of lns])
    show "prefix lns (a @ b)"
      using exc(1) by (rule prefix_prefix)
    show "and_then m f = Inl (RecursionError, shared_part (emit vs lns))"
      by (simp add: exc(2))
  qed
qed

lemma stops_others_then:
  assumes "stops_within vs b (f vs)"
  shows "stops_within vs b (and_then (visit_others r vs os) f)"
proof (cases "frames_others os \<le> r")
  case True
  then show ?thesis by (simp add: visit_others_outcome assms)
next
  case False
  then show ?thesis by (simp add: visit_others_outcome stops_raise)
qed

lemma stops_others: "stops_within vs [] (visit_others r vs os)"
proof (cases "frames_others os \<le> r")
  case True
  then show ?thesis by (simp add: visit_others_outcome stops_return)
next
  case False
  then show ?thesis by (simp add: visit_others_outcome stops_raise)
qed

lemma stops_then_others:
  assumes "stops_within vs a m"
  shows "stops_within vs a (and_then m (\<lambda>v. visit_others r v os))"
proof -
  have "stops_within (emit vs a) [] (visit_others r (emit vs a) os)"
    by (rule stops_others)
  with assms have "stops_within vs (a @ []) (and_then m (\<lambda>v. visit_others r v os))"
    by (rule stops_seq)
  then show ?thesis by simp
qed

lemma stops_bracket:
  assumes "stops_within (push k vs) a m"
  shows "stops_within vs a (and_then m pop)"
  using assms
proof (cases rule: stops_withinE)
  case ret
  show ?thesis
    by (rule stops_withinI1) (simp add: ret)
next
  case (exc lns)
  show ?thesis
    by (rule stops_withinI2 [of lns]) (simp_all add: exc)
qed

lemma stops_forbidden:
  "stops_within vs (if nearest good (state vs) = Some FINALLY then [ln] else [])
     (do_forbidden vs ln (Some good))"
  by (rule stops_withinI1) (simp add: do_forbidden_emit)


lemma stops_seq_st:
  assumes "stops_within vs a m"
    and "\<And>v. stops_within v (fb (state v)) (f v)"
  shows "stops_within vs (a @ fb (state vs)) (and_then m f)"
proof -
  have "stops_within (emit vs a) (fb (state vs)) (f (emit vs a))"
    using assms(2) [of "emit vs a"] by simp
  with assms(1) show ?thesis by (rule stops_seq)
qed

lemma shape_pre_body:
  assumes "\<And>v. stops_within v (fb (state v)) (B v)"
  shows "stops_within vs (fb (state vs)) (and_then (visit_others r vs pre) B)"
  by (rule stops_others_then) (rule assms)

lemma shape_pre_body_post:
  assumes "\<And>v. stops_within v (fb (state v)) (B v)"
  shows "stops_within vs (fb (state vs))
           (and_then (visit_others r vs pre) (\<lambda>v.
            and_then (B v) (\<lambda>v. visit_others r v post)))"
  by (rule stops_others_then) (rule stops_then_others, rule assms)

lemma shape_pre_body_orelse:
  assumes "\<And>v. stops_within v (fb (state v)) (B v)"
    and "\<And>v. stops_within v (fo (state v)) (E v)"
  shows "stops_within vs (fb (state vs) @ fo (state vs))
           (and_then (visit_others r vs pre) (\<lambda>v. and_then (B v) E))"
  by (rule stops_others_then) (rule stops_seq_st [where fb = fo], rule assms(1), rule assms(2))

lemma shape_function:
  assumes "\<And>v. stops_within v (fb (state v)) (B v)"
  shows "stops_within vs (fb (state vs @ [k]))
           (and_then (visit_others r (push k vs) pre) (\<lambda>v.
            and_then (B v) (\<lambda>v. and_then (visit_others r v post) pop)))"
proof -
  have "stops_within (push k vs) (fb (state (push k vs)))
          (and_then (visit_others r (push k vs) pre) (\<lambda>v.
           and_then (B v) (\<lambda>v. visit_others r v post)))"
    using assms by (rule shape_pre_body_post)
  then have "stops_within vs (fb (state (push k vs)))
          (and_then (and_then (visit_others r (push k vs) pre) (\<lambda>v.
           and_then (B v) (\<lambda>v. visit_others r v post))) pop)"
    by (rule stops_bracket)
  then show ?thesis
    by (simp add: and_then_assoc)
qed

lemma shape_loop:
  assumes "\<And>v. stops_within v (fb (state v)) (B v)"
    and "\<And>v. stops_within v (fo (state v)) (E v)"
  shows "stops_within vs (fb (state vs @ [k]) @ fo (state vs @ [k]))
           (and_then (visit_others r (push k vs) pre) (\<lambda>v.
            and_then (B v) (\<lambda>v. and_then (E v) pop)))"
proof -
  have "stops_within (push k vs) (fb (state (push k vs)) @ fo (state (push k vs)))
          (and_then (visit_others r (push k vs) pre) (\<lambda>v. and_then (B v) E))"
    using assms by (rule shape_pre_body_orelse)
  then have "stops_within vs (fb (state (push k vs)) @ fo (state (push k vs)))
          (and_then (and_then (visit_others r (push k vs) pre) (\<lambda>v. and_then (B v) E)) pop)"
    by (rule stops_bracket)
  then show ?thesis
    by (simp add: and_then_assoc)
qed

lemma shape_try:
  assumes "stops_within vs a m"
    and "\<And>v. stops_within v (fh (state v)) (H v)"
    and "\<And>v. stops_within v (fo (state v)) (E v)"
    and "\<And>v. stops_within (push k v) (ff (state (push k v))) (F (push k v))"
  shows "stops_within vs
           (a @ fh (state vs) @ fo (state vs) @ ff (state vs @ [k]))
           (and_then m (\<lambda>v. and_then (H v) (\<lambda>v. and_then (E v) (\<lambda>v.
            and_then (F (push k v)) pop))))"
proof -
  have last: "stops_within v (ff (state v @ [k])) (and_then (F (push k v)) pop)" for v
  proof -
    have "stops_within (push k v) (ff (state (push k v))) (F (push k v))"
      by (rule assms(4))
    then have "stops_within v (ff (state (push k v))) (and_then (F (push k v)) pop)"
      by (rule stops_bracket)
    then show ?thesis by simp
  qed
  have tail1: "stops_within v (fo (state v) @ ff (state v @ [k]))
                 (and_then (E v) (\<lambda>v. and_then (F (push k v)) pop))" for v
    by (rule stops_seq_st [where fb = "\<lambda>st. ff (st @ [k])"], rule assms(3), rule last)
  have tail2: "stops_within v (fh (state v) @ fo (state v) @ ff (state v @ [k]))
                 (and_then (H v) (\<lambda>v. and_then (E v) (\<lambda>v.
                  and_then (F (push k v)) pop)))" for v
    by (rule stops_seq_st [where fb = "\<lambda>st. fo st @ ff (st @ [k])"], rule assms(2), rule tail1)
  show ?thesis
    by (rule stops_seq_st [where fb = "\<lambda>st. fh st @ fo st @ ff (st @ [k])"],
        rule assms(1), rule tail2)
qed

lemma shape_cons:
  assumes "\<not> r < c \<Longrightarrow> stops_within vs a m"
    and "\<And>v. \<not> r < c \<Longrightarrow> stops_within v (fb (state v)) (f v)"
  shows "stops_within vs (a @ fb (state vs))
           (if r < c then Inl (RecursionError, shared_part vs) else and_then m f)"
proof (cases "r < c")
  case True
  then show ?thesis by (simp add: stops_raise)
next
  case False
  have "stops_within vs (a @ fb (state vs)) (and_then m f)"
    by (rule stops_seq_st [where fb = fb], rule assms(1) [OF False], rule assms(2) [OF False])
  with False show ?thesis by simp
qed


lemma shape_guarded:
  assumes "\<And>v. \<not> r < c \<Longrightarrow> stops_within v (fb (state v)) (B v)"
    and "\<And>v. \<not> r < c \<Longrightarrow> stops_within v (fr (state v)) (R v)"
  shows "stops_within vs (fb (state vs) @ fr (state vs))
           (if r < c then Inl (RecursionError, shared_part vs)
            else and_then (visit_others r' vs pre) (\<lambda>v. and_then (B v) R))"
proof (cases "r < c")
  case True
  then show ?thesis by (simp add: stops_raise)
next
  case False
  have "stops_within vs (fb (state vs) @ fr (state vs))
          (and_then (visit_others r' vs pre) (\<lambda>v. and_then (B v) R))"
    by (rule shape_pre_body_orelse, rule assms(1) [OF False], rule assms(2) [OF False])
  with False show ?thesis by simp
qed

lemma visit_stops:
  "stops_within vs (flagged (state vs) n) (visit r vs n)"
  "stops_within vs (flagged_stmts (state vs) ns) (visit_stmts r vs ns)"
  "stops_within vs (flagged_handlers (state vs) hs) (visit_handlers r vs hs)"
  "stops_within vs (flagged_cases (state vs) cs) (visit_cases r vs cs)"
proof (induction r vs n and r vs ns and r vs hs and r vs cs
      rule: visit_visit_stmts_visit_handlers_visit_cases.induct)
  case (1 r vs ln pre body post)
  show ?case
    unfolding visit.simps flagged.simps
    by (rule shape_function [where fb = "\<lambda>st. flagged_stmts st body"]) (rule "1.IH")
next
  case (2 r vs ln pre body post)
  show ?case
    unfolding visit.simps flagged.simps
    by (rule shape_pre_body_post [where fb = "\<lambda>st. flagged_stmts st body"]) (rule "2.IH")
next
  case (3 r vs ln pre body post)
  show ?case
    unfolding visit.simps flagged.simps
    by (rule shape_pre_body_post [where fb = "\<lambda>st. flagged_stmts st body"]) (rule "3.IH")
next
  case (4 r vs ln)
  show ?case
    unfolding visit.simps flagged.simps by (rule stops_forbidden)
next
  case (5 r vs ln pre body orelse)
  show ?case
    unfolding visit.simps flagged.simps
    by (rule shape_loop [where fb = "\<lambda>st. flagged_stmts st body"
                           and fo = "\<lambda>st. flagged_stmts st orelse"])
       (rule "5.IH")+
next
  case (6 r vs ln pre body orelse)
  show ?case
    unfolding visit.simps flagged.simps
    by (rule shape_pre_body_orelse [where fb = "\<lambda>st. flagged_stmts st body"
                                      and fo = "\<lambda>st. flagged_stmts st orelse"])
       (rule "6.IH")+
next
  case (7 r vs ln pre body orelse)
  show ?case
    unfolding visit.simps flagged.simps
    by (rule shape_loop [where fb = "\<lambda>st. flagged_stmts st body"
                           and fo = "\<lambda>st. flagged_stmts st orelse"])
       (rule "7.IH")+
next
  case (8 r vs ln pre body orelse)
  show ?case
    unfolding visit.simps flagged.simps
    by (rule shape_pre_body_orelse [where fb = "\<lambda>st. flagged_stmts st body"
                                      and fo = "\<lambda>st. flagged_stmts st orelse"])
       (rule "8.IH")+
next
  case (9 r vs ln pre body)
  show ?case
    unfolding visit.simps flagged.simps
    by (rule shape_pre_body [where fb = "\<lambda>st. flagged_stmts st body"]) (rule "9.IH")
next
  case (10 r vs ln pre body)
  show ?case
    unfolding visit.simps flagged.simps
    by (rule shape_pre_body [where fb = "\<lambda>st. flagged_stmts st body"]) (rule "10.IH")
next
  case (11 r vs ln pre cases)
  show ?case
    unfolding visit.simps flagged.simps
    by (rule shape_pre_body [where fb = "\<lambda>st. flagged_cases st cases"]) (rule "11.IH")
next
  case (12 r vs ln body handlers orelse finalbody)
  show ?case
    unfolding visit.simps flagged.simps
    by (rule shape_try [where fh = "\<lambda>st. flagged_handlers st handlers"
                          and fo = "\<lambda>st. flagged_stmts st orelse"
                          and ff = "\<lambda>st. flagged_stmts st finalbody"
                          and F = "\<lambda>v. visit_stmts r v finalbody"])
       (rule "12.IH")+
next
  case (13 r vs ln body handlers orelse finalbody)
  show ?case
    unfolding visit.simps flagged.simps
    by (rule shape_try [where fh = "\<lambda>st. flagged_handlers st handlers"
                          and fo = "\<lambda>st. flagged_stmts st orelse"
                          and ff = "\<lambda>st. flagged_stmts st finalbody"
                          and F = "\<lambda>v. visit_stmts r v finalbody"])
       (rule "13.IH")+
next
  case (14 r vs ln)
  show ?case
    unfolding visit.simps flagged.simps by (rule stops_forbidden)
next
  case (15 r vs ln)
  show ?case
    unfolding visit.simps flagged.simps by (rule stops_forbidden)
next
  case (16 r vs ln kids)
  show ?case
    unfolding visit.simps flagged.simps by (rule stops_others)
next
  case (17 r vs)
  show ?case
    by (simp add: stops_return)
next
  case (18 r vs n ns)
  show ?case
    unfolding visit_stmts.simps flagged_stmts.simps
    by (rule shape_cons [where fb = "\<lambda>st. flagged_stmts st ns"])
       (rule "18.IH", assumption)+
next
  case (19 r vs)
  show ?case
    by (simp add: stops_return)
next
  case (20 r vs ln pre body hs)
  show ?case
    unfolding visit_handlers.simps flagged_handlers.simps
    by (rule shape_guarded [where fb = "\<lambda>st. flagged_stmts st body"
                              and fr = "\<lambda>st. flagged_handlers st hs"])
       (rule "20.IH", assumption)+
next
  case (21 r vs)
  show ?case
    by (simp add: stops_return)
next
  case (22 r vs pre body cs)
  show ?case
    unfolding visit_cases.simps flagged_cases.simps
    by (rule shape_guarded [where fb = "\<lambda>st. flagged_stmts st body"
                              and fr = "\<lambda>st. flagged_cases st cs"])
       (rule "22.IH", assumption)+
qed


lemma visit_mod_stops:
  "stops_within vs (flagged_stmts (state vs) body) (visit_mod r vs (Module body type_ignores))"
proof (cases "r < 2")
  case True
  then show ?thesis by (simp add: stops_raise)
next
  case False
  have "stops_within vs (flagged_stmts (state vs) body)
          (and_then (visit_stmts (r - 2) vs body) (\<lambda>v. visit_others (r - 2) v type_ignores))"
    by (rule stops_then_others) (rule visit_stops)
  with False show ?thesis by simp
qed

lemma visit_mod_complete:
  assumes "frames_mod (Module body type_ignores) \<le> r"
  shows "visit_mod r vs (Module body type_ignores) =
           Inr (emit vs (flagged_stmts (state vs) body))"
proof -
  from assms have "\<not> r < 2" "frames_stmts body \<le> r - 2" "frames_others type_ignores \<le> r - 2"
    by auto
  then show ?thesis
    by (simp add: visit_complete visit_others_outcome)
qed

lemma stops_recorded:
  assumes "stops_within vs fl out"
  shows "\<exists>lns. prefix lns fl \<and>
           recorded out = findings vs @ map (\<lambda>ln. (filename vs, source vs, ln)) lns"
  using assms
proof (cases rule: stops_withinE)
  case ret
  have "prefix fl fl \<and>
        recorded out = findings vs @ map (\<lambda>ln. (filename vs, source vs, ln)) fl"
    unfolding ret by (simp add: emit_def)
  then show ?thesis by (rule exI)
next
  case (exc lns)
  have "prefix lns fl \<and>
        recorded out = findings vs @ map (\<lambda>ln. (filename vs, source vs, ln)) lns"
    unfolding exc(2) by (simp add: exc(1) emit_def)
  then show ?thesis by (rule exI)
qed

lemma stops_raised:
  assumes "stops_within vs fl out"
  shows "raised out = None \<or> raised out = Some RecursionError"
  using assms by (cases rule: stops_withinE) simp_all

subsection \<open>Textual order\<close>

lemma subseq_app2: "subseq a a' \<Longrightarrow> subseq b b' \<Longrightarrow> subseq (a @ b) (a' @ b')"
  by (rule list_emb_append_mono)

lemma subseq_skip: "subseq a b \<Longrightarrow> subseq a (x # b)"
  by (rule list_emb_Cons)

lemma flagged_subseq:
  "subseq (flagged c n) (linenos n)"
  "subseq (flagged_stmts c ns) (linenos_stmts ns)"
  "subseq (flagged_handlers c hs) (linenos_handlers hs)"
  "subseq (flagged_cases c cs) (linenos_cases cs)"
  by (induction c n and c ns and c hs and c cs
      rule: flagged_flagged_stmts_flagged_handlers_flagged_cases.induct)
     (simp_all add: subseq_app2 subseq_skip)

lemma subseq_sorted: "subseq xs ys \<Longrightarrow> sorted ys \<Longrightarrow> sorted xs"
proof (induction rule: list_emb.induct)
  case (list_emb_Nil ys)
  then show ?case by simp
next
  case (list_emb_Cons xs ys y)
  then show ?case by simp
next
  case (list_emb_Cons2 x y xs ys)
  have "set xs \<subseteq> set ys"
    using list_emb_Cons2.hyps(2) by (auto elim: list_emb_set)
  with list_emb_Cons2 show ?case by auto
qed

lemma length_split: "length (split sep s) = Suc (count_list s sep)"
  by (induction s) simp_all

subsection \<open>The scenarios of the specification\<close>

text \<open>
  The five single-file scenarios, as trees with the line numbers of the text laid out
  one clause per line, under the default limit: a \<^verbatim>\<open>break\<close> in the cleanup suite of a
  \<^verbatim>\<open>try\<close> inside a loop inside a function; a \<^verbatim>\<open>break\<close> in a loop inside a cleanup
  suite; a \<^verbatim>\<open>return\<close> in a cleanup suite inside a function; a \<^verbatim>\<open>continue\<close> in a
  cleanup suite inside a loop; a lone \<^verbatim>\<open>break\<close>.
\<close>

lemma scenario_break_in_cleanup_within_loop:
  "visit_mod default_room (visitor0 [])
     (Module [FunctionDef 1 [Other []]
                [For 2 [Other [Other []], Other [Other []]]
                   [Try 3 [SimpleStmt 4 []] [] [] [Break 6]] []] []] []) =
   Inr (emit (visitor0 []) [6])"
  by (simp add: default_room_def do_forbidden_emit nearest_def)

lemma scenario_break_in_own_loop:
  "visit_mod default_room (visitor0 [])
     (Module [Try 1 [SimpleStmt 2 []] [] []
                [For 4 [Other [Other []], Other [Other []]] [Break 5] []]] []) =
   Inr (visitor0 [])"
  by (simp add: default_room_def do_forbidden_emit nearest_def)

lemma scenario_return_in_cleanup:
  "visit_mod default_room (visitor0 [])
     (Module [FunctionDef 1 [Other []] [Try 2 [SimpleStmt 3 []] [] [] [Return 5]] []] []) =
   Inr (emit (visitor0 []) [5])"
  by (simp add: default_room_def do_forbidden_emit nearest_def)

lemma scenario_continue_in_cleanup:
  "visit_mod default_room (visitor0 [])
     (Module [For 1 [Other [Other []], Other [Other []]]
                [Try 2 [SimpleStmt 3 []] [] [] [Continue 5]] []] []) =
   Inr (emit (visitor0 []) [5])"
  by (simp add: default_room_def do_forbidden_emit nearest_def)

lemma scenario_lone_break:
  "visit_mod default_room (visitor0 []) (Module [Break 1] []) = Inr (visitor0 [])"
  by (simp add: default_room_def do_forbidden_emit nearest_def)

section \<open>Classification of control-transfer statements\<close>

text \<open>
  Claim C1. A \<^verbatim>\<open>break\<close> or \<^verbatim>\<open>continue\<close> visited with a non-empty marker stack is
  decided by the entry nearest to the top that is the cleanup marker or the loop marker:
  with the stack split as \<open>outer @ m # inner\<close>, where \<open>m\<close> is one of the two and \<open>inner\<close>
  (the entries above it, function markers for instance) holds neither, nothing changes
  when \<open>m\<close> is the loop marker, and when \<open>m\<close> is the cleanup marker one finding with the
  statement's line number is appended (and printed).
\<close>

theorem break_continue_nearest_match:
  assumes "state vs = outer @ m # inner"
    and "m = FINALLY \<or> m = LOOP"
    and "FINALLY \<notin> set inner" and "LOOP \<notin> set inner"
    and "n = Break ln \<or> n = Continue ln"
  shows "visit r vs n =
           Inr (if m = LOOP then vs
                else vs\<lparr>findings := findings vs @ [(filename vs, source vs, ln)],
                        printed := printed vs @ [(filename vs, ln)]\<rparr>)"
proof -
  have "nearest LOOP (state vs) = Some m"
    using assms(1-4) by (simp add: nearest_decides)
  moreover have "visit r vs n = do_forbidden vs ln (Some LOOP)"
    using assms(5) by auto
  ultimately show ?thesis
    using assms(2) by (auto simp add: do_forbidden_emit emit_def)
qed

theorem break_continue_nearest_match_witness:
  "visit 5 (visitor0 [LOOP, FINALLY, DEF]) (Break 7) =
     Inr ((visitor0 [LOOP, FINALLY, DEF])
            \<lparr>findings := [(''a.py'', ''src'', 7)], printed := [(''a.py'', 7)]\<rparr>) \<and>
   visit 5 (visitor0 [FINALLY, LOOP, DEF]) (Continue 7) = Inr (visitor0 [FINALLY, LOOP, DEF])"
  using break_continue_nearest_match
          [of "visitor0 [LOOP, FINALLY, DEF]" "[LOOP]" FINALLY "[DEF]" "Break 7" 7 5]
        break_continue_nearest_match
          [of "visitor0 [FINALLY, LOOP, DEF]" "[FINALLY]" LOOP "[DEF]" "Continue 7" 7 5]
  by (simp add: visitor0_def)

text \<open>
  Claim C2. A \<^verbatim>\<open>return\<close> visited with a non-empty marker stack is decided the same way
  with the function marker as the safe one: loop markers above the nearest cleanup or
  function marker are passed over, a nearest function marker changes nothing, a nearest
  cleanup marker appends a finding. So a \<^verbatim>\<open>return\<close> under a cleanup suite is flagged
  also when loops lie between the two.
\<close>

theorem return_nearest_match:
  assumes "state vs = outer @ m # inner"
    and "m = FINALLY \<or> m = DEF"
    and "FINALLY \<notin> set inner" and "DEF \<notin> set inner"
  shows "visit r vs (Return ln) =
           Inr (if m = DEF then vs
                else vs\<lparr>findings := findings vs @ [(filename vs, source vs, ln)],
                        printed := printed vs @ [(filename vs, ln)]\<rparr>)"
proof -
  have "nearest DEF (state vs) = Some m"
    using assms(1-4) by (simp add: nearest_decides)
  then show ?thesis
    using assms(2) by (auto simp add: do_forbidden_emit emit_def)
qed

theorem return_nearest_match_witness:
  "visit 5 (visitor0 [DEF, FINALLY, LOOP, LOOP]) (Return 9) =
     Inr ((visitor0 [DEF, FINALLY, LOOP, LOOP])
            \<lparr>findings := [(''a.py'', ''src'', 9)], printed := [(''a.py'', 9)]\<rparr>) \<and>
   visit 5 (visitor0 [FINALLY, DEF, LOOP]) (Return 9) = Inr (visitor0 [FINALLY, DEF, LOOP])"
  using return_nearest_match
          [of "visitor0 [DEF, FINALLY, LOOP, LOOP]" "[DEF]" FINALLY "[LOOP, LOOP]" 5 9]
        return_nearest_match
          [of "visitor0 [FINALLY, DEF, LOOP]" "[FINALLY]" DEF "[LOOP]" 5 9]
  by (simp add: visitor0_def)

text \<open>
  Claim C6. A \<^verbatim>\<open>break\<close>, \<^verbatim>\<open>continue\<close> or \<^verbatim>\<open>return\<close> visited while the marker stack
  is empty leaves the visitor as it was: no finding, nothing printed, no other change.
\<close>

theorem empty_stack_ignored:
  assumes "state vs = []"
  shows "visit r vs (Break ln) = Inr vs \<and> visit r vs (Continue ln) = Inr vs \<and>
         visit r vs (Return ln) = Inr vs"
  using assms by (simp add: do_forbidden_def)

theorem empty_stack_ignored_witness:
  "state (visitor0 []) = [] \<and>
   visit 5 (visitor0 []) (Break 1) = Inr (visitor0 []) \<and>
   visit 5 (visitor0 []) (Continue 1) = Inr (visitor0 []) \<and>
   visit 5 (visitor0 []) (Return 1) = Inr (visitor0 [])"
proof -
  have h: "state (visitor0 []) = []"
    by (simp add: visitor0_def)
  show ?thesis
    using h empty_stack_ignored [OF h, of 5 1] by simp
qed

text \<open>
  Claim C9. A \<^verbatim>\<open>break\<close>, \<^verbatim>\<open>continue\<close> or \<^verbatim>\<open>return\<close> visited with a non-empty marker
  stack that holds neither the cleanup marker nor the statement's safe marker (a
  \<^verbatim>\<open>break\<close> under function markers only, say) finds no match and leaves the visitor as
  it was.
\<close>

theorem no_finding_without_match:
  assumes "safe_marker n = Some good"
    and "state vs \<noteq> []"
    and "FINALLY \<notin> set (state vs)" and "good \<notin> set (state vs)"
  shows "visit r vs n = Inr vs"
  using assms by (cases n) (simp_all add: do_forbidden_emit nearest_none)

theorem no_finding_without_match_witness:
  "safe_marker (Break 3) = Some LOOP \<and> state (visitor0 [DEF, DEF]) \<noteq> [] \<and>
   visit 5 (visitor0 [DEF, DEF]) (Break 3) = Inr (visitor0 [DEF, DEF]) \<and>
   safe_marker (Return 4) = Some DEF \<and>
   visit 5 (visitor0 [LOOP]) (Return 4) = Inr (visitor0 [LOOP])"
  using no_finding_without_match [of "Break 3" LOOP "visitor0 [DEF, DEF]" 5]
        no_finding_without_match [of "Return 4" DEF "visitor0 [LOOP]" 5]
  by (simp add: visitor0_def)

text \<open>
  Claim C10. The assertion of \<^verbatim>\<open>do_forbidden\<close> fails when no safe marker is passed,
  and no visit of a statement or of a module ever ends in that failure, whatever the
  tree and the frames left: the three call sites pass the loop marker or the function
  marker.
\<close>

theorem assertion_never_fails:
  "raised (do_forbidden vs ln None) = Some AssertionError \<and>
   raised (visit r vs n) \<noteq> Some AssertionError \<and>
   raised (visit_mod r vs a) \<noteq> Some AssertionError"
proof -
  have "raised (visit r vs n) = None \<or> raised (visit r vs n) = Some RecursionError"
    by (rule stops_raised) (rule visit_stops)
  moreover have
    "raised (visit_mod r vs a) = None \<or> raised (visit_mod r vs a) = Some RecursionError"
  proof (cases a)
    case (Module body type_ignores)
    show ?thesis
      unfolding Module by (rule stops_raised) (rule visit_mod_stops)
  qed
  ultimately show ?thesis
    by (auto simp add: do_forbidden_def)
qed


section \<open>Marker scopes\<close>

text \<open>
  Claim C3. For \<^verbatim>\<open>Try\<close> and \<^verbatim>\<open>TryStar\<close> alike, the findings of a visit are those of
  the protected body, the handlers and the else-clause classified under the stack the
  construct was entered with, followed by those of the cleanup suite classified under
  that stack with one cleanup marker on top. The visit either returns, with all of
  them recorded and the stack as it was on entry (the marker removed again), or stops in
  \<^verbatim>\<open>RecursionError\<close> with an initial part of them recorded; it returns whenever the
  frames left cover the depth of the construct.
\<close>

theorem try_marker_only_around_finalbody:
  assumes "n = Try ln body handlers orelse finalbody \<or>
           n = TryStar ln body handlers orelse finalbody"
    and "fl = flagged_stmts (state vs) body @ flagged_handlers (state vs) handlers @
              flagged_stmts (state vs) orelse @
              flagged_stmts (state vs @ [FINALLY]) finalbody"
  shows "(visit r vs n = Inr (emit vs fl) \<or>
          (\<exists>lns. prefix lns fl \<and>
             visit r vs n = Inl (RecursionError, shared_part (emit vs lns)))) \<and>
         (frames_below n \<le> r \<longrightarrow> visit r vs n = Inr (emit vs fl)) \<and>
         state (emit vs fl) = state vs"
proof -
  have fl: "fl = flagged (state vs) n"
    using assms by auto
  have "stops_within vs fl (visit r vs n)"
    unfolding fl by (rule visit_stops)
  then have "visit r vs n = Inr (emit vs fl) \<or>
          (\<exists>lns. prefix lns fl \<and>
             visit r vs n = Inl (RecursionError, shared_part (emit vs lns)))"
    by (simp only: stops_within_def)
  moreover have "frames_below n \<le> r \<longrightarrow> visit r vs n = Inr (emit vs fl)"
    unfolding fl by (simp add: visit_complete)
  ultimately show ?thesis by simp
qed

theorem try_marker_only_around_finalbody_witness:
  "visit 10 (visitor0 [LOOP])
     (Try 1 [Break 2] [ExceptHandler 3 [] [Break 4]] [Break 6]
            [Break 8, For 9 [] [Break 10] []]) =
     Inr (emit (visitor0 [LOOP]) [8]) \<and>
   visit 5 (visitor0 [LOOP])
     (TryStar 1 [Break 2] [ExceptHandler 3 [] [Break 4]] [Break 6]
            [Break 8, For 9 [Other [Other []]] [Break 10] []]) =
     Inl (RecursionError, shared_part (emit (visitor0 [LOOP]) [8]))"
  using try_marker_only_around_finalbody
          [of "Try 1 [Break 2] [ExceptHandler 3 [] [Break 4]] [Break 6]
                 [Break 8, For 9 [] [Break 10] []]"
              1 "[Break 2]" "[ExceptHandler 3 [] [Break 4]]" "[Break 6]"
              "[Break 8, For 9 [] [Break 10] []]" "[8]" "visitor0 [LOOP]" 10]
        try_marker_only_around_finalbody
          [of "TryStar 1 [Break 2] [ExceptHandler 3 [] [Break 4]] [Break 6]
                 [Break 8, For 9 [Other [Other []]] [Break 10] []]"
              1 "[Break 2]" "[ExceptHandler 3 [] [Break 4]]" "[Break 6]"
              "[Break 8, For 9 [Other [Other []]] [Break 10] []]" "[8]" "visitor0 [LOOP]" 5]
  by (simp add: nearest_def do_forbidden_emit shared_part_def emit_def visitor0_def push_def)

text \<open>
  Claim C4. The claim asks for a function marker around every function body and a loop
  marker around every loop body. The visitor has no method for \<^verbatim>\<open>AsyncFunctionDef\<close> or
  \<^verbatim>\<open>AsyncFor\<close>, so their bodies are traversed with the stack unchanged. In
  \<^verbatim>\<open>
  try:                      async def f():
      pass                      try:
  finally:                          pass
      async def g():            finally:
          return 1                  async for x in y:
                                        break
  \<close>
  the \<^verbatim>\<open>return\<close> (line 5) is visited with the stack \<open>[FINALLY]\<close> and the \<^verbatim>\<open>break\<close>
  (line 6) likewise, and both are recorded as findings, although each leaves only its
  own function or loop; with \<^verbatim>\<open>def\<close> and \<^verbatim>\<open>for\<close> in their place nothing is recorded.
\<close>

theorem async_bodies_get_no_marker:
  "visit_mod default_room (visitor0 [])
     (Module [Try 1 [SimpleStmt 2 []] [] [] [AsyncFunctionDef 4 [Other []] [Return 5] []]] []) =
   Inr ((visitor0 [])\<lparr>findings := [(''a.py'', ''src'', 5)], printed := [(''a.py'', 5)]\<rparr>) \<and>
   visit_mod default_room (visitor0 [])
     (Module [Try 1 [SimpleStmt 2 []] [] [] [FunctionDef 4 [Other []] [Return 5] []]] []) =
   Inr (visitor0 []) \<and>
   visit_mod default_room (visitor0 [])
     (Module [AsyncFunctionDef 1 [Other []]
                [Try 2 [SimpleStmt 3 []] [] []
                   [AsyncFor 5 [Other [Other []], Other [Other []]] [Break 6] []]] []] []) =
   Inr ((visitor0 [])\<lparr>findings := [(''a.py'', ''src'', 6)], printed := [(''a.py'', 6)]\<rparr>) \<and>
   visit_mod default_room (visitor0 [])
     (Module [FunctionDef 1 [Other []]
                [Try 2 [SimpleStmt 3 []] [] []
                   [For 5 [Other [Other []], Other [Other []]] [Break 6] []]] []] []) =
   Inr (visitor0 [])"
  by (simp add: default_room_def do_forbidden_emit nearest_def emit_def visitor0_def push_def
        pop_def)

section \<open>Findings of one input\<close>

text \<open>
  Claim C7. One visit of a parsed module keeps the findings that were there and appends
  findings for flagged statements only, one for each, in textual order: all of them when
  the visit returns, and the first so many of them when it stops in \<^verbatim>\<open>RecursionError\<close>.
  When the parser numbers the statements of the text in ascending order, the appended
  findings are in ascending line order. The appended line numbers are a subsequence of the
  statements' line numbers, so no statement has two. The visit returns whenever the
  frames left cover the depth of the tree.
\<close>

theorem findings_in_line_order:
  assumes "sorted (linenos_stmts body)"
  shows "\<exists>lns. prefix lns (flagged_stmts (state vs) body) \<and>
           recorded (visit_mod r vs (Module body type_ignores)) =
             findings vs @ map (\<lambda>ln. (filename vs, source vs, ln)) lns \<and>
           sorted lns \<and> subseq lns (linenos_stmts body) \<and>
           (raised (visit_mod r vs (Module body type_ignores)) = None \<longrightarrow>
              lns = flagged_stmts (state vs) body) \<and>
           (frames_mod (Module body type_ignores) \<le> r \<longrightarrow>
              visit_mod r vs (Module body type_ignores) =
                Inr (emit vs (flagged_stmts (state vs) body)))"
proof -
  let ?fl = "flagged_stmts (state vs) body"
  let ?out = "visit_mod r vs (Module body type_ignores)"
  have all: "subseq ?fl (linenos_stmts body)"
    by (rule flagged_subseq)
  have fits: "frames_mod (Module body type_ignores) \<le> r \<longrightarrow> ?out = Inr (emit vs ?fl)"
    by (rule impI) (rule visit_mod_complete)
  have "stops_within vs ?fl ?out"
    by (rule visit_mod_stops)
  then show ?thesis
  proof (cases rule: stops_withinE)
    case ret
    show ?thesis
    proof (rule exI [of _ ?fl], intro conjI)
      show "prefix ?fl ?fl"
        by simp
      show "recorded ?out = findings vs @ map (\<lambda>ln. (filename vs, source vs, ln)) ?fl"
        unfolding ret by (simp add: emit_def)
      show "sorted ?fl"
        using all assms by (rule subseq_sorted)
      show "subseq ?fl (linenos_stmts body)"
        by (rule all)
      show "raised ?out = None \<longrightarrow> ?fl = ?fl"
        by simp
      show "frames_mod (Module body type_ignores) \<le> r \<longrightarrow> ?out = Inr (emit vs ?fl)"
        by (rule fits)
    qed
  next
    case (exc lns)
    have sub: "subseq lns (linenos_stmts body)"
      using prefix_imp_subseq [OF exc(1)] all by (rule subseq_order.trans)
    show ?thesis
    proof (rule exI [of _ lns], intro conjI)
      show "prefix lns ?fl"
        by (rule exc(1))
      show "recorded ?out = findings vs @ map (\<lambda>ln. (filename vs, source vs, ln)) lns"
        unfolding exc(2) by (simp add: emit_def)
      show "sorted lns"
        using sub assms by (rule subseq_sorted)
      show "subseq lns (linenos_stmts body)"
        by (rule sub)
      show "raised ?out = None \<longrightarrow> lns = ?fl"
        unfolding exc(2) by simp
      show "frames_mod (Module body type_ignores) \<le> r \<longrightarrow> ?out = Inr (emit vs ?fl)"
        by (rule fits)
    qed
  qed
qed

theorem findings_in_line_order_witness:
  "sorted (linenos_stmts example_body) \<and>
   visit_mod 20 (visitor0 []) (Module example_body []) =
     Inr (emit (visitor0 []) [7, 7, 13, 14]) \<and>
   raised (visit_mod 15 (visitor0 []) (Module example_body [])) = Some RecursionError \<and>
   recorded (visit_mod 15 (visitor0 []) (Module example_body [])) =
     [(''a.py'', ''src'', 7), (''a.py'', ''src'', 7)]"
proof -
  have h: "sorted (linenos_stmts example_body)"
    by (simp add: example_body_def)
  show ?thesis
    using h findings_in_line_order [OF h, of "visitor0 []" 20 "[]"]
      findings_in_line_order [OF h, of "visitor0 []" 15 "[]"]
    by (simp add: example_body_def nearest_def do_forbidden_emit shared_part_def emit_def
          visitor0_def push_def pop_def)
qed

section \<open>The reporter on one input\<close>

text \<open>
  Claim C5. When the parser raises \<^verbatim>\<open>SyntaxError\<close> or \<^verbatim>\<open>RecursionError\<close>,
  \<^verbatim>\<open>report\<close> returns normally and the reporter is as before: no finding appended, the
  line total unchanged.
\<close>

theorem report_skips_parse_failure:
  assumes "parse src = Inl SyntaxError \<or> parse src = Inl RecursionError"
  shows "report parse room self src fname verbose = Inr self"
  using assms by (auto simp add: report_def)

theorem report_skips_parse_failure_witness:
  "report (\<lambda>src. if src = ''def'' then Inl SyntaxError else Inl RecursionError)
     default_room reporter0 ''def'' ''a.py'' 1 = Inr reporter0 \<and>
   report (\<lambda>src. if src = ''def'' then Inl SyntaxError else Inl RecursionError)
     default_room reporter0 ''(((('' ''b.py'' 1 = Inr reporter0"
  using report_skips_parse_failure
          [of "\<lambda>src. if src = ''def'' then Inl SyntaxError else Inl RecursionError"
              "''def''" default_room reporter0 "''a.py''" 1]
        report_skips_parse_failure
          [of "\<lambda>src. if src = ''def'' then Inl SyntaxError else Inl RecursionError"
              "''((((''" default_room reporter0 "''b.py''" 1]
  by simp

text \<open>
  What holds of the line total. When the input parses and the frames left cover the depth
  of its tree, \<^verbatim>\<open>report\<close> returns and the total has grown by the number of pieces the
  raw text falls into when cut at each newline byte, one more than the number of newline
  bytes. When the visit raises, \<^verbatim>\<open>report\<close> raises the same exception and the total is
  as before.
\<close>

lemma report_counts_lines_when_visit_returns:
  assumes "parse src = Inr a" and "frames_mod a \<le> room"
  shows "\<exists>r. report parse room self src fname verbose = Inr r \<and>
             lines r = lines self + int (length (split newline src)) \<and>
             length (split newline src) = Suc (count_list src newline)"
proof (cases a)
  case (Module body type_ignores)
  with assms show ?thesis
    by (simp add: report_def visit_mod_complete length_split del: visit_mod.simps)
qed

lemma report_leaves_lines_when_visit_raises:
  assumes "parse src = Inr a"
    and "visit_mod room \<lparr>findings = findings self, printed = printed self,
                          source = src, filename = fname, state = []\<rparr> a = Inl (e, s)"
  shows "report parse room self src fname verbose =
           Inl (e, self\<lparr>findings := findings s, printed := printed s\<rparr>) \<and>
         lines (self\<lparr>findings := findings s, printed := printed s\<rparr>) = lines self"
  using assms by (simp add: report_def)

text \<open>
  Claim C8. The claim asks that every input that parses adds its line count to the
  total. The visit of line 95 is outside the \<^verbatim>\<open>try\<close>, and on a tree deeper than the
  recursion limit allows it raises \<^verbatim>\<open>RecursionError\<close>, the exception the same method
  catches two lines above when the parser raises it. For the text \<open>deep_source\<close>, whose
  tree needs 1208 frames, \<^verbatim>\<open>report\<close> under the default limit raises: the finding of
  line 5 is already in the reporter's list, and the line total is what it was.
\<close>

theorem report_raises_on_deep_tree:
  "frames_mod deep_module = 1208 \<and>
   report (\<lambda>src. if src = deep_source then Inr deep_module else Inl SyntaxError)
     default_room reporter0 deep_source ''a.py'' 1 =
   Inl (RecursionError,
        reporter0\<lparr>findings := [(''a.py'', deep_source, 5)], printed := [(''a.py'', 5)]\<rparr>) \<and>
   lines (reporter0\<lparr>findings := [(''a.py'', deep_source, 5)], printed := [(''a.py'', 5)]\<rparr>) =
   lines reporter0"
  by (simp add: report_def deep_module_def default_room_def reporter0_def
        visit_others_outcome frames_attr_chain do_forbidden_emit nearest_def emit_def
        shared_part_def push_def pop_def del: visit_others.simps)

end
